theory Spec2Isabelle
  imports Main "HOL-Library.AList"
begin

section \<open>Strings, exceptions and the library functions the program calls\<close>

text \<open>
  A Python \<open>str\<close> is modelled as a \<open>string\<close>, each \<open>char\<close> read as one code point
  in the range U+0000 .. U+00FF. Within that range the regular-expression class
  \<open>\d\<close> holds exactly the ten characters \<open>0\<close> .. \<open>9\<close>, and \<open>str.lower\<close> works
  character by character.
\<close>

datatype pyerror = ValueError | KeyError | IndexError | OverflowError

text \<open>
  A method is modelled as a function from the state of its object to the value it returns (or the
  exception it raises) and the state of the object afterwards.
\<close>

type_synonym ('s, 'a) pymethod = "'s \<Rightarrow> (pyerror + 'a) \<times> 's"

definition re_digit :: "char \<Rightarrow> bool" where
  "re_digit c = (c \<in> set ''0123456789'')"

definition digit_val :: "char \<Rightarrow> nat" where
  "digit_val c = of_char c - 48"

text \<open>\<open>str.lower\<close>: the letters A-Z, and the capital letters of U+00C0 .. U+00DE
  (all but the multiplication sign U+00D7), move up by 32.\<close>

definition lower_char :: "char \<Rightarrow> char" where
  "lower_char c =
     (let n = (of_char c :: nat)
      in if (65 \<le> n \<and> n \<le> 90) \<or> (192 \<le> n \<and> n \<le> 222 \<and> n \<noteq> 215)
         then char_of (n + 32) else c)"

definition str_lower :: "string \<Rightarrow> string" where
  "str_lower s = map lower_char s"

subsection \<open>The regular expression of \<open>validate_phone\<close>\<close>

text \<open>\<open>\d{n}\<close>: exactly \<open>n\<close> digits; returns the rest of the input.\<close>

fun re_repeat_digit :: "nat \<Rightarrow> string \<Rightarrow> string option" where
  "re_repeat_digit 0 s = Some s"
| "re_repeat_digit (Suc n) [] = None"
| "re_repeat_digit (Suc n) (c # s) = (if re_digit c then re_repeat_digit n s else None)"

text \<open>\<open>$\<close> (without the MULTILINE flag) matches at the end of the string and just before
  a line feed that is the last character of the string.\<close>

definition re_dollar :: "string \<Rightarrow> bool" where
  "re_dollar rest = (rest = [] \<or> rest = [CHR 0x0A])"

subsection \<open>Calendar dates of \<open>datetime\<close>\<close>

record date =
  year :: nat
  month :: nat
  day :: nat

definition is_leap :: "nat \<Rightarrow> bool" where
  "is_leap y = (y mod 4 = 0 \<and> (y mod 100 \<noteq> 0 \<or> y mod 400 = 0))"

definition days_in_month :: "nat \<Rightarrow> nat \<Rightarrow> nat" where
  "days_in_month y m =
     (if m = 2 then (if is_leap y then 29 else 28)
      else if m = 4 \<or> m = 6 \<or> m = 9 \<or> m = 11 then 30 else 31)"

definition MAXYEAR :: nat where
  "MAXYEAR = 9999"

definition valid_date :: "date \<Rightarrow> bool" where
  "valid_date d =
     (1 \<le> year d \<and> year d \<le> MAXYEAR \<and> 1 \<le> month d \<and> month d \<le> 12 \<and>
      1 \<le> day d \<and> day d \<le> days_in_month (year d) (month d))"

text \<open>The constructor \<open>date(year, month, day)\<close> raises ValueError outside the calendar.\<close>

definition datetime_date :: "nat \<Rightarrow> nat \<Rightarrow> nat \<Rightarrow> pyerror + date" where
  "datetime_date y m d =
     (let r = \<lparr>year = y, month = m, day = d\<rparr>
      in if valid_date r then Inr r else Inl ValueError)"

definition next_day :: "date \<Rightarrow> date" where
  "next_day d =
     (if day d < days_in_month (year d) (month d) then d\<lparr>day := day d + 1\<rparr>
      else if month d < 12 then d\<lparr>month := month d + 1, day := 1\<rparr>
      else \<lparr>year = year d + 1, month = 1, day = 1\<rparr>)"

text \<open>\<open>d + timedelta(days=n)\<close> for \<open>n \<ge> 0\<close>: the date \<open>n\<close> days later, OverflowError
  when that date lies after 31.12.9999. (The time of day of a \<open>datetime\<close> is left out:
  adding whole days keeps it, and the format \<open>%d.%m\<close> does not read it.)\<close>

definition date_add_days :: "date \<Rightarrow> nat \<Rightarrow> pyerror + date" where
  "date_add_days d n =
     (let r = (next_day ^^ n) d
      in if year r \<le> MAXYEAR then Inr r else Inl OverflowError)"

definition pad2 :: "nat \<Rightarrow> string" where
  "pad2 n = [char_of (48 + n div 10 mod 10), char_of (48 + n mod 10)]"

text \<open>\<open>d.strftime("%d.%m")\<close>: day and month, two digits each.\<close>

definition strftime_dm :: "date \<Rightarrow> string" where
  "strftime_dm d = pad2 (day d) @ ''.'' @ pad2 (month d)"

subsection \<open>\<open>datetime.strptime(value, "%d.%m.%Y")\<close>\<close>

text \<open>
  \<open>strptime\<close> turns the format into the regular expression
  \<open>(3[0-1]|[1-2]\d|0[1-9]|[1-9]| [1-9])\.(1[0-2]|0[1-9]|[1-9])\.(\d\d\d\d)\<close>,
  matches it at the start of the string, raises ValueError when there is no match or
  when the match ends before the end of the string, and then builds the date, which
  raises ValueError when the calendar has no such day. Each group below lists, in
  the order of its alternatives, the value and the rest of the input of every alternative
  that matches.
\<close>

definition re_group_d :: "string \<Rightarrow> (nat \<times> string) list" where
  "re_group_d s =
     (case s of
        a # b # r \<Rightarrow>
          (if a = CHR ''3'' \<and> b \<in> set ''01'' then [(30 + digit_val b, r)] else []) @
          (if a \<in> set ''12'' \<and> re_digit b then [(10 * digit_val a + digit_val b, r)] else []) @
          (if a = CHR ''0'' \<and> b \<in> set ''123456789'' then [(digit_val b, r)] else [])
      | _ \<Rightarrow> []) @
     (case s of
        a # r \<Rightarrow> (if a \<in> set ''123456789'' then [(digit_val a, r)] else [])
      | _ \<Rightarrow> []) @
     (case s of
        a # b # r \<Rightarrow>
          (if a = CHR '' '' \<and> b \<in> set ''123456789'' then [(digit_val b, r)] else [])
      | _ \<Rightarrow> [])"

definition re_group_m :: "string \<Rightarrow> (nat \<times> string) list" where
  "re_group_m s =
     (case s of
        a # b # r \<Rightarrow>
          (if a = CHR ''1'' \<and> b \<in> set ''012'' then [(10 + digit_val b, r)] else []) @
          (if a = CHR ''0'' \<and> b \<in> set ''123456789'' then [(digit_val b, r)] else [])
      | _ \<Rightarrow> []) @
     (case s of
        a # r \<Rightarrow> (if a \<in> set ''123456789'' then [(digit_val a, r)] else [])
      | _ \<Rightarrow> [])"

definition re_group_Y :: "string \<Rightarrow> (nat \<times> string) list" where
  "re_group_Y s =
     (case s of
        a # b # c # d # r \<Rightarrow>
          (if re_digit a \<and> re_digit b \<and> re_digit c \<and> re_digit d
           then [(1000 * digit_val a + 100 * digit_val b + 10 * digit_val c + digit_val d, r)]
           else [])
      | _ \<Rightarrow> [])"

definition re_dot :: "string \<Rightarrow> string list" where
  "re_dot s = (case s of c # r \<Rightarrow> (if c = CHR ''.'' then [r] else []) | _ \<Rightarrow> [])"

text \<open>All ways the expression matches a prefix of the input, the one the backtracking
  matcher finds first at the head.\<close>

definition re_dmY :: "string \<Rightarrow> (nat \<times> nat \<times> nat \<times> string) list" where
  "re_dmY s =
     [(d, m, y, r5).
        (d, r1) \<leftarrow> re_group_d s, r2 \<leftarrow> re_dot r1,
        (m, r3) \<leftarrow> re_group_m r2, r4 \<leftarrow> re_dot r3,
        (y, r5) \<leftarrow> re_group_Y r4]"

definition strptime_dmY :: "string \<Rightarrow> pyerror + date" where
  "strptime_dmY s =
     (case re_dmY s of
        [] \<Rightarrow> Inl ValueError
      | (d, m, y, rest) # _ \<Rightarrow>
          if rest \<noteq> [] then Inl ValueError else datetime_date y m d)"

section \<open>Fields\<close>

record Field =
  "value" :: string

type_synonym Name = Field
type_synonym Phone = Field
type_synonym Birthday = Field

definition Field_str :: "Field \<Rightarrow> string" where
  "Field_str self = value self"

definition Phone_validate_phone :: "string \<Rightarrow> bool" where
  "Phone_validate_phone phone_number =
     (case re_repeat_digit 10 phone_number of
        None \<Rightarrow> False
      | Some rest \<Rightarrow> re_dollar rest)"

definition Phone_init :: "string \<Rightarrow> pyerror + Phone" where
  "Phone_init v =
     (if \<not> Phone_validate_phone v then Inl ValueError else Inr \<lparr>value = v\<rparr>)"

definition Birthday_init :: "string \<Rightarrow> pyerror + Birthday" where
  "Birthday_init v =
     (case strptime_dmY v of
        Inl ValueError \<Rightarrow> Inl ValueError
      | Inl e \<Rightarrow> Inl e
      | Inr _ \<Rightarrow> Inr \<lparr>value = v\<rparr>)"

section \<open>Record\<close>

record Record =
  name :: Name
  phones :: "Phone list"
  birthday :: "Birthday option"

definition Record_init :: "string \<Rightarrow> Record" where
  "Record_init n = \<lparr>name = \<lparr>value = n\<rparr>, phones = [], birthday = None\<rparr>"

text \<open>\<open>self.phones.append(Phone(phone))\<close>: the argument is built, and may raise, before
  the list is touched.\<close>

definition Record_add_phone :: "string \<Rightarrow> (Record, unit) pymethod" where
  "Record_add_phone phone self =
     (case Phone_init phone of
        Inl e \<Rightarrow> (Inl e, self)
      | Inr p \<Rightarrow> (Inr (), self\<lparr>phones := phones self @ [p]\<rparr>))"

definition Record_remove_phone :: "string \<Rightarrow> (Record, unit) pymethod" where
  "Record_remove_phone phone self =
     (Inr (), self\<lparr>phones := [p. p \<leftarrow> phones self, value p \<noteq> phone]\<rparr>)"

fun edit_phone_loop :: "Phone list \<Rightarrow> string \<Rightarrow> string \<Rightarrow> Phone list" where
  "edit_phone_loop [] old_phone new_phone = []"
| "edit_phone_loop (phone # rest) old_phone new_phone =
     (if str_lower (value phone) = str_lower old_phone
      then phone\<lparr>value := new_phone\<rparr> else phone)
     # edit_phone_loop rest old_phone new_phone"

definition Record_edit_phone :: "string \<Rightarrow> string \<Rightarrow> (Record, unit) pymethod" where
  "Record_edit_phone old_phone new_phone self =
     (Inr (), self\<lparr>phones := edit_phone_loop (phones self) old_phone new_phone\<rparr>)"

fun find_phone_loop :: "Phone list \<Rightarrow> string \<Rightarrow> Phone option" where
  "find_phone_loop [] phone = None"
| "find_phone_loop (p # rest) phone =
     (if str_lower (value p) = str_lower phone then Some p
      else find_phone_loop rest phone)"

definition Record_find_phone :: "string \<Rightarrow> (Record, Phone option) pymethod" where
  "Record_find_phone phone self = (Inr (find_phone_loop (phones self) phone), self)"

definition Record_add_birthday :: "string \<Rightarrow> (Record, unit) pymethod" where
  "Record_add_birthday b self =
     (case Birthday_init b of
        Inl e \<Rightarrow> (Inl e, self)
      | Inr bd \<Rightarrow> (Inr (), self\<lparr>birthday := Some bd\<rparr>))"

section \<open>AddressBook\<close>

text \<open>
  The dictionary \<open>data\<close> of the \<open>UserDict\<close> is an association list in insertion order:
  storing under a key that is present replaces the value where it stands, storing under
  a new key appends, as Python's \<open>dict\<close> does.
\<close>

record AddressBook =
  data :: "(string \<times> Record) list"

definition AddressBook_init :: AddressBook where
  "AddressBook_init = \<lparr>data = []\<rparr>"

definition dict_contains :: "'k \<Rightarrow> ('k \<times> 'v) list \<Rightarrow> bool" where
  "dict_contains k d = (k \<in> fst ` set d)"

text \<open>\<open>d[k]\<close> and \<open>del d[k]\<close> raise KeyError when the key is absent.\<close>

definition dict_getitem :: "'k \<Rightarrow> ('k \<times> 'v) list \<Rightarrow> pyerror + 'v" where
  "dict_getitem k d = (case map_of d k of None \<Rightarrow> Inl KeyError | Some v \<Rightarrow> Inr v)"

definition dict_delitem :: "'k \<Rightarrow> ('k \<times> 'v) list \<Rightarrow> pyerror + ('k \<times> 'v) list" where
  "dict_delitem k d = (if dict_contains k d then Inr (AList.delete k d) else Inl KeyError)"

definition AddressBook_add_record :: "Record \<Rightarrow> (AddressBook, unit) pymethod" where
  "AddressBook_add_record record self =
     (Inr (), self\<lparr>data := AList.update (value (name record)) record (data self)\<rparr>)"

definition AddressBook_find :: "string \<Rightarrow> (AddressBook, Record option) pymethod" where
  "AddressBook_find n self = (Inr (map_of (data self) n), self)"

definition AddressBook_delete :: "string \<Rightarrow> (AddressBook, unit) pymethod" where
  "AddressBook_delete n self =
     (if dict_contains n (data self)
      then (case dict_delitem n (data self) of
              Inl e \<Rightarrow> (Inl e, self)
            | Inr d \<Rightarrow> (Inr (), self\<lparr>data := d\<rparr>))
      else (Inr (), self))"

text \<open>The comprehension over \<open>range(1, 8)\<close>; it stops at the first date that raises.\<close>

fun upcoming_dates_of :: "date \<Rightarrow> nat list \<Rightarrow> pyerror + string list" where
  "upcoming_dates_of today [] = Inr []"
| "upcoming_dates_of today (i # rest) =
     (case date_add_days today i of
        Inl e \<Rightarrow> Inl e
      | Inr d \<Rightarrow>
          (case upcoming_dates_of today rest of
             Inl e \<Rightarrow> Inl e
           | Inr ds \<Rightarrow> Inr (strftime_dm d # ds)))"

text \<open>The loop over \<open>self.data.values()\<close>. A Birthday object is always true, so
  \<open>record.birthday and ...\<close> asks whether the birthday is set; \<open>value[0:5]\<close> is the
  first five characters, fewer when the string is shorter.\<close>

fun upcoming_loop :: "string list \<Rightarrow> Record list \<Rightarrow> Record list \<Rightarrow> Record list" where
  "upcoming_loop upcoming_dates [] upcoming_birthdays = upcoming_birthdays"
| "upcoming_loop upcoming_dates (record # rest) upcoming_birthdays =
     upcoming_loop upcoming_dates rest
       (case birthday record of
          None \<Rightarrow> upcoming_birthdays
        | Some b \<Rightarrow>
            if take 5 (value b) \<in> set upcoming_dates
            then upcoming_birthdays @ [record] else upcoming_birthdays)"

text \<open>\<open>today\<close> is what \<open>datetime.now()\<close> returns.\<close>

definition AddressBook_get_upcoming_birthdays :: "date \<Rightarrow> (AddressBook, Record list) pymethod" where
  "AddressBook_get_upcoming_birthdays today self =
     (case upcoming_dates_of today [1..<8] of
        Inl e \<Rightarrow> (Inl e, self)
      | Inr upcoming_dates \<Rightarrow>
          (Inr (upcoming_loop upcoming_dates (map snd (data self)) []), self))"

text \<open>
  \<open>address_book[name].m(...)\<close>: the Record object stored under \<open>name\<close> is mutated where it
  is, so the book holds the mutated record under the same key afterwards; KeyError when
  the name is absent.
\<close>

definition AddressBook_call :: "string \<Rightarrow> (Record, 'a) pymethod \<Rightarrow> (AddressBook, 'a) pymethod" where
  "AddressBook_call n m self =
     (case dict_getitem n (data self) of
        Inl e \<Rightarrow> (Inl e, self)
      | Inr record \<Rightarrow>
          (case m record of
             (res, record') \<Rightarrow> (res, self\<lparr>data := AList.update n record' (data self)\<rparr>)))"

section \<open>Command handlers\<close>

text \<open>The decorator: KeyError, ValueError and IndexError become messages, any other
  exception passes through.\<close>

definition input_error ::
  "('a \<Rightarrow> (AddressBook, string) pymethod) \<Rightarrow> 'a \<Rightarrow> (AddressBook, string) pymethod" where
  "input_error func args address_book =
     (case func args address_book of
        (Inl KeyError, b) \<Rightarrow> (Inr ''Enter valid user name.'', b)
      | (Inl ValueError, b) \<Rightarrow> (Inr ''Give me name and phone please.'', b)
      | (Inl IndexError, b) \<Rightarrow>
          (Inr ''Incomplete command. Please provide necessary arguments.'', b)
      | (Inl e, b) \<Rightarrow> (Inl e, b)
      | (Inr r, b) \<Rightarrow> (Inr r, b))"

text \<open>The undecorated function; \<open>name, birthday = args\<close> raises ValueError unless there
  are exactly two arguments.\<close>

definition add_birthday_func :: "string list \<Rightarrow> (AddressBook, string) pymethod" where
  "add_birthday_func args address_book =
     (case args of
        [n, b] \<Rightarrow>
          if dict_contains n (data address_book)
          then (case AddressBook_call n (Record_add_birthday b) address_book of
                  (Inl e, book') \<Rightarrow> (Inl e, book')
                | (Inr _, book') \<Rightarrow> (Inr (''Birthday added for '' @ n @ ''.''), book'))
          else (Inr (''Contact '' @ n @ '' not found.''), address_book)
      | _ \<Rightarrow> (Inl ValueError, address_book))"

definition add_birthday :: "string list \<Rightarrow> (AddressBook, string) pymethod" where
  "add_birthday = input_error add_birthday_func"

section \<open>Invariants of the book, the fixed-width pattern, and example data\<close>

text \<open>Every record of the book is stored under the value of its own name.\<close>

definition keyed_by_name :: "AddressBook \<Rightarrow> bool" where
  "keyed_by_name book = list_all (\<lambda>(k, r). value (name r) = k) (data book)"

text \<open>A dictionary holds each key once.\<close>

definition unique_names :: "AddressBook \<Rightarrow> bool" where
  "unique_names book = distinct (map fst (data book))"

definition example_record :: Record where
  "example_record =
     \<lparr>name = \<lparr>value = ''Ann''\<rparr>,
      phones = [\<lparr>value = ''1234567890''\<rparr>, \<lparr>value = ''0987654321''\<rparr>],
      birthday = Some \<lparr>value = ''05.01.1990''\<rparr>\<rparr>"

definition example_book :: AddressBook where
  "example_book =
     \<lparr>data = [(''Ann'', example_record), (''Bob'', Record_init ''Bob'')]\<rparr>"

text \<open>The pattern of the specification, day (2 digits), month (2 digits), year (4 digits)
  with dots between, as the text of a date.\<close>

definition pad4 :: "nat \<Rightarrow> string" where
  "pad4 n = [char_of (48 + n div 1000 mod 10), char_of (48 + n div 100 mod 10),
             char_of (48 + n div 10 mod 10), char_of (48 + n mod 10)]"

definition fixed_width_dmY :: "date \<Rightarrow> string" where
  "fixed_width_dmY d = pad2 (day d) @ ''.'' @ pad2 (month d) @ ''.'' @ pad4 (year d)"

text \<open>Three birthdays around the first of January, and a contact without one.\<close>

definition window_book :: AddressBook where
  "window_book =
     \<lparr>data =
        [(''Ann'', \<lparr>name = \<lparr>value = ''Ann''\<rparr>, phones = [],
                    birthday = Some \<lparr>value = ''05.01.1990''\<rparr>\<rparr>),
         (''Bob'', \<lparr>name = \<lparr>value = ''Bob''\<rparr>, phones = [],
                    birthday = Some \<lparr>value = ''01.01.1990''\<rparr>\<rparr>),
         (''Cy'', \<lparr>name = \<lparr>value = ''Cy''\<rparr>, phones = [],
                   birthday = Some \<lparr>value = ''09.01.1990''\<rparr>\<rparr>),
         (''Dee'', \<lparr>name = \<lparr>value = ''Dee''\<rparr>, phones = [], birthday = None\<rparr>)]\<rparr>"

section \<open>Properties of Record\<close>

text \<open>The definitions that evaluate a parse, and a date, on concrete input.\<close>

lemmas regex_defs = re_dmY_def re_group_d_def re_group_m_def re_group_Y_def re_dot_def
  re_digit_def digit_val_def

lemmas date_defs = datetime_date_def valid_date_def days_in_month_def MAXYEAR_def is_leap_def

lemma edit_phone_loop_map:
  "edit_phone_loop ps old new =
     map (\<lambda>p. if str_lower (value p) = str_lower old then p\<lparr>value := new\<rparr> else p) ps"
  by (induction ps) simp_all

lemma edit_phone_loop_no_match:
  "\<forall>p \<in> set ps. str_lower (value p) \<noteq> str_lower old \<Longrightarrow> edit_phone_loop ps old new = ps"
  by (induction ps) simp_all

lemma find_phone_loop_Some:
  "\<exists>p \<in> set ps. str_lower (value p) = str_lower phone \<Longrightarrow>
   \<exists>q. find_phone_loop ps phone = Some q \<and> q \<in> set ps \<and> str_lower (value q) = str_lower phone"
  by (induction ps) auto

lemma find_phone_loop_None:
  "find_phone_loop ps phone = None \<longleftrightarrow> (\<forall>p \<in> set ps. str_lower (value p) \<noteq> str_lower phone)"
  by (induction ps) auto

lemma edit_phone_loop_stores_new:
  "\<exists>p \<in> set ps. str_lower (value p) = str_lower old \<Longrightarrow>
   \<exists>q \<in> set (edit_phone_loop ps old new). value q = new"
  by (induction ps) auto

text \<open>
  C9: when validation of \<open>raw\<close> fails, \<open>add_phone(raw)\<close> raises ValueError and the record,
  its phone sequence included, is as it was before the call.
\<close>

theorem add_phone_invalid_atomic:
  "\<not> Phone_validate_phone raw \<Longrightarrow> Record_add_phone raw r = (Inl ValueError, r)"
  by (simp add: Record_add_phone_def Phone_init_def)

theorem add_phone_invalid_atomic_witness:
  "\<not> Phone_validate_phone ''12-34'' \<and>
   Record_add_phone ''12-34'' example_record = (Inl ValueError, example_record)"
proof -
  have h: "\<not> Phone_validate_phone ''12-34''"
    by (simp add: Phone_validate_phone_def re_digit_def eval_nat_numeral)
  with add_phone_invalid_atomic [OF h, of example_record] show ?thesis by simp
qed

text \<open>
  C10: \<open>edit_phone\<close> raises no error and leaves name and birthday as they were; when no
  stored phone equals \<open>old\<close> up to case, the whole record is unchanged.
\<close>

theorem edit_phone_frame:
  "fst (Record_edit_phone old new r) = Inr () \<and>
   name (snd (Record_edit_phone old new r)) = name r \<and>
   birthday (snd (Record_edit_phone old new r)) = birthday r \<and>
   ((\<forall>p \<in> set (phones r). str_lower (value p) \<noteq> str_lower old) \<longrightarrow>
      Record_edit_phone old new r = (Inr (), r))"
  by (simp add: Record_edit_phone_def edit_phone_loop_no_match)

theorem edit_phone_frame_witness:
  "\<not> (\<exists>p \<in> set (phones example_record). str_lower (value p) = str_lower ''5555555555'') \<and>
   Record_edit_phone ''5555555555'' ''1112223334'' example_record = (Inr (), example_record)"
proof -
  have h: "\<forall>p \<in> set (phones example_record). str_lower (value p) \<noteq> str_lower ''5555555555''"
    by (simp add: example_record_def str_lower_def lower_char_def)
  with edit_phone_frame [of "''5555555555''" "''1112223334''" example_record]
  show ?thesis by blast
qed

text \<open>
  C4: \<open>edit_phone\<close> overwrites the value of every stored phone that equals \<open>old\<close> up to
  case with \<open>new\<close>, whatever \<open>new\<close> is; when at least one phone matched, \<open>find_phone(new)\<close>
  on the edited record returns a stored phone that equals \<open>new\<close> up to case. No validity of
  \<open>new\<close> is assumed.
\<close>

theorem edit_phone_then_find_phone:
  "phones (snd (Record_edit_phone old new r)) =
     map (\<lambda>p. if str_lower (value p) = str_lower old then p\<lparr>value := new\<rparr> else p) (phones r) \<and>
   ((\<exists>p \<in> set (phones r). str_lower (value p) = str_lower old) \<longrightarrow>
      (\<exists>q. Record_find_phone new (snd (Record_edit_phone old new r)) =
              (Inr (Some q), snd (Record_edit_phone old new r)) \<and>
            q \<in> set (phones (snd (Record_edit_phone old new r))) \<and>
            str_lower (value q) = str_lower new))"
proof (intro conjI impI)
  show "phones (snd (Record_edit_phone old new r)) =
     map (\<lambda>p. if str_lower (value p) = str_lower old then p\<lparr>value := new\<rparr> else p) (phones r)"
    by (simp add: Record_edit_phone_def edit_phone_loop_map)
next
  assume m: "\<exists>p \<in> set (phones r). str_lower (value p) = str_lower old"
  let ?ps = "edit_phone_loop (phones r) old new"
  from edit_phone_loop_stores_new [OF m, of new]
  have "\<exists>p \<in> set ?ps. str_lower (value p) = str_lower new" by auto
  from find_phone_loop_Some [OF this]
  show "\<exists>q. Record_find_phone new (snd (Record_edit_phone old new r)) =
              (Inr (Some q), snd (Record_edit_phone old new r)) \<and>
            q \<in> set (phones (snd (Record_edit_phone old new r))) \<and>
            str_lower (value q) = str_lower new"
    by (simp add: Record_find_phone_def Record_edit_phone_def)
qed

theorem edit_phone_then_find_phone_witness:
  "(\<exists>p \<in> set (phones example_record). str_lower (value p) = str_lower ''0987654321'') \<and>
   \<not> Phone_validate_phone ''n/a'' \<and>
   (\<exists>q. Record_find_phone ''n/a'' (snd (Record_edit_phone ''0987654321'' ''n/a'' example_record)) =
           (Inr (Some q), snd (Record_edit_phone ''0987654321'' ''n/a'' example_record)) \<and>
         q \<in> set (phones (snd (Record_edit_phone ''0987654321'' ''n/a'' example_record))) \<and>
         str_lower (value q) = str_lower ''n/a'')"
proof -
  have h: "\<exists>p \<in> set (phones example_record). str_lower (value p) = str_lower ''0987654321''"
    by (simp add: example_record_def)
  have v: "\<not> Phone_validate_phone ''n/a''"
    by (simp add: Phone_validate_phone_def re_digit_def eval_nat_numeral)
  from h v edit_phone_then_find_phone [of "''0987654321''" "''n/a''" example_record]
  show ?thesis by blast
qed

section \<open>Properties of AddressBook\<close>

lemma delete_splits:
  "distinct (map fst d) \<Longrightarrow> (k, v) \<in> set d \<Longrightarrow>
   \<exists>xs ys. d = xs @ (k, v) # ys \<and> AList.delete k d = xs @ ys"
proof -
  assume dist: "distinct (map fst d)" and mem: "(k, v) \<in> set d"
  from mem obtain xs ys where d: "d = xs @ (k, v) # ys" by (auto dest: split_list)
  with dist have "k \<notin> fst ` set xs" "k \<notin> fst ` set ys" by auto
  then have "AList.delete k xs = xs" "AList.delete k ys = ys"
    by simp_all
  moreover have "AList.delete k d = AList.delete k xs @ AList.delete k ys"
    by (simp add: d AList.delete_eq)
  ultimately have "AList.delete k d = xs @ ys" by simp
  with d show ?thesis by blast
qed

text \<open>
  C8: \<open>delete(name)\<close> of a name that is not in the book raises nothing and returns the book
  unchanged; of a name that is in the book it raises nothing and removes what is stored
  under that name, every other entry staying in place: one entry, as the keys of a
  dictionary are distinct.
\<close>

theorem delete_absent_or_present:
  "(\<not> dict_contains n (data book) \<longrightarrow> AddressBook_delete n book = (Inr (), book)) \<and>
   (dict_contains n (data book) \<longrightarrow>
      fst (AddressBook_delete n book) = Inr () \<and>
      data (snd (AddressBook_delete n book)) = [(k, r) \<leftarrow> data book. k \<noteq> n] \<and>
      map_of (data (snd (AddressBook_delete n book))) = (map_of (data book))(n := None) \<and>
      (unique_names book \<longrightarrow>
         (\<exists>xs r ys. data book = xs @ (n, r) # ys \<and>
                    data (snd (AddressBook_delete n book)) = xs @ ys)))"
proof (intro conjI impI)
  assume "\<not> dict_contains n (data book)"
  then show "AddressBook_delete n book = (Inr (), book)"
    by (simp add: AddressBook_delete_def)
next
  assume a: "dict_contains n (data book)"
  then show "fst (AddressBook_delete n book) = Inr ()"
    by (simp add: AddressBook_delete_def dict_delitem_def)
  from a have d: "data (snd (AddressBook_delete n book)) = AList.delete n (data book)"
    by (simp add: AddressBook_delete_def dict_delitem_def)
  show "data (snd (AddressBook_delete n book)) = [(k, r) \<leftarrow> data book. k \<noteq> n]"
    unfolding d AList.delete_eq by (rule filter_cong) auto
  show "map_of (data (snd (AddressBook_delete n book))) = (map_of (data book))(n := None)"
    unfolding d by (rule AList.delete_conv')
  assume u: "unique_names book"
  from a obtain r where "(n, r) \<in> set (data book)"
    by (auto simp: dict_contains_def)
  with u delete_splits [of "data book" n r]
  show "\<exists>xs r ys. data book = xs @ (n, r) # ys \<and>
                 data (snd (AddressBook_delete n book)) = xs @ ys"
    unfolding d unique_names_def by blast
qed

theorem delete_absent_or_present_witness:
  "\<not> dict_contains ''Zed'' (data example_book) \<and>
   AddressBook_delete ''Zed'' example_book = (Inr (), example_book) \<and>
   dict_contains ''Ann'' (data example_book) \<and> unique_names example_book \<and>
   data (snd (AddressBook_delete ''Ann'' example_book)) = [(''Bob'', Record_init ''Bob'')]"
proof -
  have h1: "\<not> dict_contains ''Zed'' (data example_book)"
    by (simp add: dict_contains_def example_book_def)
  have h2: "dict_contains ''Ann'' (data example_book)" "unique_names example_book"
    by (simp_all add: dict_contains_def unique_names_def example_book_def)
  from h1 delete_absent_or_present [of "''Zed''" example_book]
  have "AddressBook_delete ''Zed'' example_book = (Inr (), example_book)"
    by blast
  moreover from h2 delete_absent_or_present [of "''Ann''" example_book]
  have "data (snd (AddressBook_delete ''Ann'' example_book)) =
      [(k, r) \<leftarrow> data example_book. k \<noteq> ''Ann'']"
    by blast
  then have "data (snd (AddressBook_delete ''Ann'' example_book)) =
      [(''Bob'', Record_init ''Bob'')]"
    by (simp add: example_book_def)
  ultimately show ?thesis using h1 h2 by blast
qed

lemma list_all_update:
  "list_all P d \<Longrightarrow> P (k, v) \<Longrightarrow> list_all P (AList.update k v d)"
  by (induction d) auto

lemma list_all_delete: "list_all P d \<Longrightarrow> list_all P (AList.delete k d)"
  by (simp add: AList.delete_eq list_all_iff)

lemma keyed_by_name_add_record:
  "keyed_by_name book \<Longrightarrow> keyed_by_name (snd (AddressBook_add_record r book))"
  by (simp add: keyed_by_name_def AddressBook_add_record_def list_all_update)

lemma keyed_by_name_delete:
  "keyed_by_name book \<Longrightarrow> keyed_by_name (snd (AddressBook_delete n book))"
  by (simp add: keyed_by_name_def AddressBook_delete_def dict_delitem_def list_all_delete)

lemma keyed_by_name_call:
  assumes inv: "keyed_by_name book" and m: "\<And>r. name (snd (m r)) = name r"
  shows "keyed_by_name (snd (AddressBook_call n m book))"
proof (cases "map_of (data book) n")
  case None
  with inv show ?thesis by (simp add: AddressBook_call_def dict_getitem_def)
next
  case (Some r)
  then have "(n, r) \<in> set (data book)" by (rule map_of_SomeD)
  with inv have "value (name r) = n"
    by (auto simp: keyed_by_name_def list_all_iff)
  with m [of r] have "value (name (snd (m r))) = n" by simp
  with inv have "list_all (\<lambda>(k, r). value (name r) = k) (AList.update n (snd (m r)) (data book))"
    by (simp add: keyed_by_name_def list_all_update)
  with Some show ?thesis
    by (simp add: AddressBook_call_def dict_getitem_def keyed_by_name_def case_prod_beta)
qed

lemma name_add_phone: "name (snd (Record_add_phone p r)) = name r"
  by (simp add: Record_add_phone_def split: sum.splits)

lemma name_remove_phone: "name (snd (Record_remove_phone p r)) = name r"
  by (simp add: Record_remove_phone_def)

lemma name_edit_phone: "name (snd (Record_edit_phone old new r)) = name r"
  by (simp add: Record_edit_phone_def)

lemma name_find_phone: "name (snd (Record_find_phone p r)) = name r"
  by (simp add: Record_find_phone_def)

lemma name_add_birthday: "name (snd (Record_add_birthday b r)) = name r"
  by (simp add: Record_add_birthday_def split: sum.splits)

lemma get_upcoming_birthdays_state:
  "snd (AddressBook_get_upcoming_birthdays today book) = book"
  by (simp add: AddressBook_get_upcoming_birthdays_def split: sum.splits)

text \<open>
  C7: the empty book has every record keyed under its own name, and \<open>add_record\<close>,
  \<open>find\<close>, \<open>delete\<close>, \<open>get_upcoming_birthdays\<close> and every Record operation called on a record
  of the book keep it so.
\<close>

theorem keyed_by_name_preserved:
  "keyed_by_name AddressBook_init \<and>
   (keyed_by_name book \<longrightarrow>
      keyed_by_name (snd (AddressBook_add_record r book)) \<and>
      keyed_by_name (snd (AddressBook_find n book)) \<and>
      keyed_by_name (snd (AddressBook_delete n book)) \<and>
      keyed_by_name (snd (AddressBook_get_upcoming_birthdays today book)) \<and>
      keyed_by_name (snd (AddressBook_call n (Record_add_phone p) book)) \<and>
      keyed_by_name (snd (AddressBook_call n (Record_remove_phone p) book)) \<and>
      keyed_by_name (snd (AddressBook_call n (Record_edit_phone p p') book)) \<and>
      keyed_by_name (snd (AddressBook_call n (Record_find_phone p) book)) \<and>
      keyed_by_name (snd (AddressBook_call n (Record_add_birthday b) book)))"
  by (simp add: keyed_by_name_add_record keyed_by_name_delete keyed_by_name_call
      name_add_phone name_remove_phone name_edit_phone name_find_phone name_add_birthday
      get_upcoming_birthdays_state AddressBook_find_def)
     (simp add: keyed_by_name_def AddressBook_init_def)

theorem keyed_by_name_preserved_witness:
  "keyed_by_name example_book \<and>
   keyed_by_name (snd (AddressBook_add_record (Record_init ''Cy'') example_book)) \<and>
   keyed_by_name (snd (AddressBook_delete ''Ann'' example_book)) \<and>
   keyed_by_name (snd (AddressBook_call ''Ann'' (Record_edit_phone ''1234567890'' ''x'') example_book))"
proof -
  have h: "keyed_by_name example_book"
    by (simp add: keyed_by_name_def example_book_def example_record_def Record_init_def)
  with keyed_by_name_preserved [of example_book "Record_init ''Cy''" "''Ann''"
      "\<lparr>year = 2024, month = 1, day = 1\<rparr>" "''1234567890''" "''x''" "''05.01.1990''"]
  show ?thesis by blast
qed

lemma one_entry_update:
  "distinct (map fst d) \<Longrightarrow> length (filter (\<lambda>(k', _). k' = k) (AList.update k v d)) = 1"
proof (induction d)
  case Nil
  then show ?case by simp
next
  case (Cons p ps)
  show ?case
  proof (cases "fst p = k")
    case True
    with Cons.prems have "k \<notin> fst ` set ps" by auto
    then have "filter (\<lambda>(k', _). k' = k) ps = []"
      by (force simp: filter_empty_conv)
    with True show ?thesis by simp
  next
    case False
    with Cons show ?thesis by (simp add: case_prod_beta)
  qed
qed

lemma unique_names_add_record:
  "unique_names book \<Longrightarrow> unique_names (snd (AddressBook_add_record r book))"
  by (simp add: unique_names_def AddressBook_add_record_def distinct_update)

lemma unique_names_delete:
  "unique_names book \<Longrightarrow> unique_names (snd (AddressBook_delete n book))"
  by (simp add: unique_names_def AddressBook_delete_def dict_delitem_def distinct_delete)

lemma unique_names_call:
  "unique_names book \<Longrightarrow> unique_names (snd (AddressBook_call n m book))"
  by (simp add: unique_names_def AddressBook_call_def dict_getitem_def distinct_update
      split: option.splits prod.splits)

lemma add_record_twice:
  "value (name r1) = value (name r2) \<Longrightarrow>
   snd (AddressBook_add_record r2 (snd (AddressBook_add_record r1 book))) =
   snd (AddressBook_add_record r2 book)"
  by (simp add: AddressBook_add_record_def)

lemma find_add_record:
  "AddressBook_find (value (name r)) (snd (AddressBook_add_record r book)) =
   (Inr (Some r), snd (AddressBook_add_record r book))"
  by (simp add: AddressBook_find_def AddressBook_add_record_def update_conv')

lemma replaced_record_gone:
  assumes u: "unique_names book" and k: "keyed_by_name book" and ne: "r1 \<noteq> r2"
    and n: "value (name r1) = value (name r2)"
  shows "r1 \<notin> snd ` set (data (snd (AddressBook_add_record r2 book)))"
proof
  let ?b = "snd (AddressBook_add_record r2 book)"
  assume "r1 \<in> snd ` set (data ?b)"
  then obtain key where mem: "(key, r1) \<in> set (data ?b)" by auto
  from k have "keyed_by_name ?b" by (rule keyed_by_name_add_record)
  with mem have "key = value (name r1)"
    by (auto simp: keyed_by_name_def list_all_iff)
  moreover from u have "distinct (map fst (data ?b))"
    using unique_names_add_record [of book r2] by (simp add: unique_names_def)
  ultimately have "map_of (data ?b) (value (name r2)) = Some r1"
    using mem n by simp
  moreover have "map_of (data ?b) (value (name r2)) = Some r2"
    by (simp add: AddressBook_add_record_def update_conv')
  ultimately show False using ne by simp
qed

text \<open>
  C6: after \<open>add_record(r1)\<close> and then \<open>add_record(r2)\<close> with the same name, \<open>find\<close> of that
  name returns \<open>r2\<close>; the book is the one that adding \<open>r2\<close> alone gives; the name occurs
  once among the keys, and \<open>r1\<close> is no longer among the records of the book.
\<close>

theorem add_record_replaces:
  assumes "value (name r1) = n" and "value (name r2) = n"
  shows "(let b1 = snd (AddressBook_add_record r1 book);
              b2 = snd (AddressBook_add_record r2 b1)
          in AddressBook_find n b2 = (Inr (Some r2), b2) \<and>
             b2 = snd (AddressBook_add_record r2 book) \<and>
             (unique_names book \<longrightarrow>
                unique_names b1 \<and> unique_names b2 \<and>
                length (filter (\<lambda>(k, _). k = n) (data b2)) = 1) \<and>
             (unique_names book \<and> keyed_by_name book \<and> r1 \<noteq> r2 \<longrightarrow>
                r1 \<notin> snd ` set (data b2)))"
proof -
  let ?b1 = "snd (AddressBook_add_record r1 book)"
  let ?b2 = "snd (AddressBook_add_record r2 ?b1)"
  from assms have same: "value (name r1) = value (name r2)" by simp
  have eq: "?b2 = snd (AddressBook_add_record r2 book)"
    using same by (rule add_record_twice)
  have f: "AddressBook_find n ?b2 = (Inr (Some r2), ?b2)"
    using find_add_record [of r2 ?b1] assms by simp
  have u: "unique_names book \<longrightarrow> unique_names ?b1 \<and> unique_names ?b2 \<and>
      length (filter (\<lambda>(k, _). k = n) (data ?b2)) = 1"
    using assms
    by (auto simp: unique_names_add_record)
       (simp add: AddressBook_add_record_def unique_names_def one_entry_update distinct_update)
  have g: "unique_names book \<and> keyed_by_name book \<and> r1 \<noteq> r2 \<longrightarrow> r1 \<notin> snd ` set (data ?b2)"
    unfolding eq using replaced_record_gone [OF _ _ _ same] by blast
  from f eq u g show ?thesis unfolding Let_def by blast
qed

theorem add_record_replaces_witness:
  "value (name example_record) = ''Ann'' \<and> value (name (Record_init ''Ann'')) = ''Ann'' \<and>
   unique_names example_book \<and> keyed_by_name example_book \<and> example_record \<noteq> Record_init ''Ann'' \<and>
   (let b1 = snd (AddressBook_add_record example_record example_book);
        b2 = snd (AddressBook_add_record (Record_init ''Ann'') b1)
    in AddressBook_find ''Ann'' b2 = (Inr (Some (Record_init ''Ann'')), b2) \<and>
       unique_names b2 \<and> length (filter (\<lambda>(k, _). k = ''Ann'') (data b2)) = 1 \<and>
       example_record \<notin> snd ` set (data b2))"
proof -
  have h1: "value (name example_record) = ''Ann''" by (simp add: example_record_def)
  have h2: "value (name (Record_init ''Ann'')) = ''Ann''" by (simp add: Record_init_def)
  have h3: "unique_names example_book \<and> keyed_by_name example_book \<and>
      example_record \<noteq> Record_init ''Ann''"
    by (simp add: unique_names_def keyed_by_name_def example_book_def example_record_def
        Record_init_def)
  from add_record_replaces [OF h1 h2, of example_book] h1 h2 h3 show ?thesis
    unfolding Let_def by blast
qed

section \<open>The seven-day window of \<open>get_upcoming_birthdays\<close>\<close>

lemma days_in_month_bounds: "28 \<le> days_in_month y m" "days_in_month y m \<le> 31"
  by (simp_all add: days_in_month_def)

lemma next_day_iterated:
  assumes v: "1 \<le> day d" "day d \<le> days_in_month (year d) (month d)" and k: "k \<le> 28"
  shows "(next_day ^^ k) d =
     (if day d + k \<le> days_in_month (year d) (month d) then d\<lparr>day := day d + k\<rparr>
      else if month d < 12
      then \<lparr>year = year d, month = month d + 1,
            day = day d + k - days_in_month (year d) (month d)\<rparr>
      else \<lparr>year = year d + 1, month = 1,
            day = day d + k - days_in_month (year d) (month d)\<rparr>)"
  using k
proof (induction k)
  case 0
  with v show ?case by simp
next
  case (Suc k)
  let ?n = "days_in_month (year d) (month d)"
  from Suc have IH: "(next_day ^^ k) d =
     (if day d + k \<le> ?n then d\<lparr>day := day d + k\<rparr>
      else if month d < 12
      then \<lparr>year = year d, month = month d + 1, day = day d + k - ?n\<rparr>
      else \<lparr>year = year d + 1, month = 1, day = day d + k - ?n\<rparr>)"
    and k: "k < 28" by simp_all
  have step: "(next_day ^^ Suc k) d = next_day ((next_day ^^ k) d)" by simp
  consider (inside) "day d + k < ?n" | (last) "day d + k = ?n" | (over) "?n < day d + k"
    by linarith
  then show ?case
  proof cases
    case inside
    then have "next_day (d\<lparr>day := day d + k\<rparr>) = d\<lparr>day := day d + Suc k\<rparr>"
      by (simp add: next_day_def)
    with inside IH show ?thesis unfolding step by simp
  next
    case last
    then have "next_day (d\<lparr>day := day d + k\<rparr>) =
        (if month d < 12 then \<lparr>year = year d, month = month d + 1, day = 1\<rparr>
         else \<lparr>year = year d + 1, month = 1, day = 1\<rparr>)"
      by (simp add: next_day_def)
    with last IH show ?thesis unfolding step by simp
  next
    case over
    let ?e = "day d + k - ?n"
    from over v k have e: "?e < 28" by linarith
    have "?e < days_in_month (year d) (month d + 1)" "?e < days_in_month (year d + 1) 1"
      using e days_in_month_bounds(1) [of "year d" "month d + 1"]
        days_in_month_bounds(1) [of "year d + 1" 1] by linarith+
    then have
      "next_day \<lparr>year = year d, month = month d + 1, day = ?e\<rparr> =
         \<lparr>year = year d, month = month d + 1, day = ?e + 1\<rparr>"
      "next_day \<lparr>year = year d + 1, month = 1, day = ?e\<rparr> =
         \<lparr>year = year d + 1, month = 1, day = ?e + 1\<rparr>"
      by (simp_all add: next_day_def)
    moreover from over have "day d + Suc k - ?n = ?e + 1" by linarith
    ultimately show ?thesis using IH over unfolding step by simp
  qed
qed

lemma next_day_iterated_month_day:
  assumes "valid_date d" and "k \<le> 28"
  shows "1 \<le> month ((next_day ^^ k) d) \<and> month ((next_day ^^ k) d) \<le> 12 \<and>
         1 \<le> day ((next_day ^^ k) d) \<and> day ((next_day ^^ k) d) \<le> 31"
proof -
  let ?n = "days_in_month (year d) (month d)"
  from assms have v: "1 \<le> day d" "day d \<le> ?n" "1 \<le> month d" "month d \<le> 12"
    by (simp_all add: valid_date_def)
  have n: "28 \<le> ?n" "?n \<le> 31" by (rule days_in_month_bounds)+
  show ?thesis
    unfolding next_day_iterated [OF v(1,2) assms(2)]
    using v n assms(2) by auto
qed

lemma next_day_iterated_year:
  assumes "valid_date d" and "k \<le> 28"
    and "year d < MAXYEAR \<or> month d < 12 \<or> day d + k \<le> 31"
  shows "year ((next_day ^^ k) d) \<le> MAXYEAR"
proof -
  let ?n = "days_in_month (year d) (month d)"
  from assms have v: "1 \<le> day d" "day d \<le> ?n" "1 \<le> month d" "month d \<le> 12"
    "year d \<le> MAXYEAR"
    by (simp_all add: valid_date_def)
  have "month d = 12 \<Longrightarrow> ?n = 31" by (simp add: days_in_month_def)
  with assms(3) v show ?thesis
    unfolding next_day_iterated [OF v(1,2) assms(2)] by auto
qed

lemma next_day_iterated_valid:
  assumes "valid_date d" and "k \<le> 7"
    and "year d < MAXYEAR \<or> month d < 12 \<or> day d + k \<le> 31"
  shows "valid_date ((next_day ^^ k) d)"
proof -
  let ?n = "days_in_month (year d) (month d)"
  from assms have v: "1 \<le> day d" "day d \<le> ?n" "1 \<le> month d" "month d \<le> 12"
    "year d \<le> MAXYEAR" "1 \<le> year d"
    by (simp_all add: valid_date_def)
  from assms(2) have k: "k \<le> 28" by simp
  have m12: "month d = 12 \<Longrightarrow> ?n = 31" by (simp add: days_in_month_def)
  have "day d + k - ?n \<le> days_in_month (year d) (month d + 1)"
    "day d + k - ?n \<le> days_in_month (year d + 1) 1"
    using v(2) assms(2) days_in_month_bounds(1) [of "year d" "month d + 1"]
      days_in_month_bounds(1) [of "year d + 1" 1] by linarith+
  with assms(3) v m12 show ?thesis
    unfolding valid_date_def next_day_iterated [OF v(1,2) k] by auto
qed

lemma next_day_iterated_differs:
  assumes "valid_date d" and "1 \<le> k" and "k \<le> 27"
  shows "month ((next_day ^^ k) d) \<noteq> month d \<or> day ((next_day ^^ k) d) \<noteq> day d"
proof -
  let ?n = "days_in_month (year d) (month d)"
  from assms have v: "1 \<le> day d" "day d \<le> ?n" "1 \<le> month d" "month d \<le> 12"
    by (simp_all add: valid_date_def)
  from assms(3) have k: "k \<le> 28" by simp
  show ?thesis
    unfolding next_day_iterated [OF v(1,2) k]
    using v assms(2) by auto
qed

lemma digit_char_inj: "x < 10 \<Longrightarrow> y < 10 \<Longrightarrow> char_of (48 + x) = char_of (48 + y) \<Longrightarrow> x = (y::nat)"
proof -
  assume x: "x < 10" and y: "y < 10" and eq: "char_of (48 + x) = char_of (48 + y)"
  from eq have "(48 + x) mod 256 = (48 + y) mod 256" by (simp only: char_of_quasi_inj)
  moreover from x y have "(48 + x) mod 256 = 48 + x" "(48 + y) mod 256 = 48 + y"
    by simp_all
  ultimately show "x = y" by simp
qed

lemma pad2_inj: "a < 100 \<Longrightarrow> b < 100 \<Longrightarrow> pad2 a = pad2 b \<Longrightarrow> a = b"
proof -
  assume a: "a < 100" and b: "b < 100" and eq: "pad2 a = pad2 b"
  have lt: "a div 10 mod 10 < 10" "b div 10 mod 10 < 10" "a mod 10 < 10" "b mod 10 < 10"
    by simp_all
  from eq have "char_of (48 + a div 10 mod 10) = (char_of (48 + b div 10 mod 10) :: char)"
    and "char_of (48 + a mod 10) = (char_of (48 + b mod 10) :: char)"
    by (simp_all only: pad2_def list.inject)
  then have hi: "a div 10 mod 10 = b div 10 mod 10" and lo: "a mod 10 = b mod 10"
    using lt by (blast dest: digit_char_inj)+
  from a b have "a div 10 < 10" "b div 10 < 10" by simp_all
  with hi have "a div 10 = b div 10" by simp
  with lo show "a = b" by (metis div_mult_mod_eq)
qed

lemma strftime_dm_inj:
  assumes "day a < 100" "month a < 100" "day b < 100" "month b < 100"
    and "strftime_dm a = strftime_dm b"
  shows "day a = day b \<and> month a = month b"
proof -
  have l: "length (pad2 (day a)) = length (pad2 (day b))" by (simp add: pad2_def)
  from assms(5) have "pad2 (day a) = pad2 (day b) \<and> pad2 (month a) = pad2 (month b)"
    unfolding strftime_dm_def using l by simp
  with assms(1-4) show ?thesis by (auto dest: pad2_inj)
qed

lemma strftime_dm_later_differs:
  assumes "valid_date d" and "1 \<le> k" and "k \<le> 27"
  shows "strftime_dm ((next_day ^^ k) d) \<noteq> strftime_dm d"
proof
  assume eq: "strftime_dm ((next_day ^^ k) d) = strftime_dm d"
  from assms(3) have k: "k \<le> 28" by simp
  from assms(1) have "day d \<le> 31" "month d \<le> 12"
    using days_in_month_bounds(2) [of "year d" "month d"] by (simp_all add: valid_date_def)
  with next_day_iterated_month_day [OF assms(1) k]
  have "day ((next_day ^^ k) d) = day d \<and> month ((next_day ^^ k) d) = month d"
    by (intro strftime_dm_inj [OF _ _ _ _ eq]) linarith+
  with next_day_iterated_differs [OF assms] show False by simp
qed

lemma upcoming_loop_filter:
  "upcoming_loop ds rs acc =
     acc @ filter (\<lambda>r. case birthday r of None \<Rightarrow> False
                         | Some b \<Rightarrow> take 5 (value b) \<in> set ds) rs"
  by (induction rs arbitrary: acc) (simp_all split: option.splits)

lemma upcoming_dates_of_in_range:
  "\<forall>i \<in> set is. year ((next_day ^^ i) today) \<le> MAXYEAR \<Longrightarrow>
   upcoming_dates_of today is = Inr (map (\<lambda>i. strftime_dm ((next_day ^^ i) today)) is)"
  by (induction "is") (simp_all add: date_add_days_def Let_def)

lemma window_in_range:
  assumes "valid_date today" and "year today < MAXYEAR \<or> month today < 12 \<or> day today \<le> 24"
    and "i \<le> 7"
  shows "year ((next_day ^^ i) today) \<le> MAXYEAR" and "valid_date ((next_day ^^ i) today)"
proof -
  from assms(2,3) have b: "year today < MAXYEAR \<or> month today < 12 \<or> day today + i \<le> 31"
    by linarith
  from assms(3) have "i \<le> 28" by simp
  with assms(1) b show "year ((next_day ^^ i) today) \<le> MAXYEAR"
    by (intro next_day_iterated_year)
  from assms(1,3) b show "valid_date ((next_day ^^ i) today)"
    by (rule next_day_iterated_valid)
qed

lemma upcoming_dates_of_window:
  assumes "valid_date today" and "year today < MAXYEAR \<or> month today < 12 \<or> day today \<le> 24"
  shows "upcoming_dates_of today [1..<8] =
     Inr (map (\<lambda>i. strftime_dm ((next_day ^^ i) today)) [1..<8])"
proof (rule upcoming_dates_of_in_range, rule ballI)
  fix i assume "i \<in> set [1..<8]"
  then have "i \<le> 7" by simp
  with assms show "year ((next_day ^^ i) today) \<le> MAXYEAR" by (rule window_in_range)
qed

lemma window_excludes_today:
  assumes "valid_date today" and "i \<in> {1..7}"
  shows "strftime_dm ((next_day ^^ i) today) \<noteq> strftime_dm today"
  using assms by (intro strftime_dm_later_differs) simp_all

lemma window_excludes_eighth:
  assumes "valid_date today" and "year today < MAXYEAR \<or> month today < 12 \<or> day today \<le> 24"
    and "i \<in> {1..7}"
  shows "strftime_dm ((next_day ^^ i) today) \<noteq> strftime_dm ((next_day ^^ 8) today)"
proof -
  from assms(3) have i: "1 \<le> i" "i \<le> 7" by simp_all
  let ?d = "(next_day ^^ i) today"
  from assms(1,2) i(2) have v: "valid_date ?d" by (rule window_in_range)
  from i have "8 = (8 - i) + i" by simp
  then have "(next_day ^^ 8) today = (next_day ^^ (8 - i)) ?d"
    by (metis funpow_add o_apply)
  moreover from i have "1 \<le> 8 - i" "8 - i \<le> 27" by simp_all
  with v have "strftime_dm ((next_day ^^ (8 - i)) ?d) \<noteq> strftime_dm ?d"
    by (rule strftime_dm_later_differs)
  ultimately show ?thesis by simp
qed

lemma funpow_unroll:
  "(f ^^ 2) x = f (f x)" "(f ^^ 3) x = f (f (f x))" "(f ^^ 4) x = f (f (f (f x)))"
  "(f ^^ 5) x = f (f (f (f (f x))))" "(f ^^ 6) x = f (f (f (f (f (f x)))))"
  "(f ^^ 7) x = f (f (f (f (f (f (f x))))))"
  by (simp_all add: eval_nat_numeral)

lemma range_1_8: "[1..<8] = [1, 2, 3, 4, 5, 6, 7::nat]"
  by (simp add: upt_rec)

lemmas window_defs = date_add_days_def next_day_def
  days_in_month_def is_leap_def MAXYEAR_def strftime_dm_def pad2_def Let_def

lemma upcoming_dates_of_2024_01_01:
  "upcoming_dates_of \<lparr>year = 2024, month = 1, day = 1\<rparr> [1..<8] =
     Inr [''02.01'', ''03.01'', ''04.01'', ''05.01'', ''06.01'', ''07.01'', ''08.01'']"
  unfolding range_1_8 by (simp add: window_defs funpow_unroll char_of_eq_iff)

lemma upcoming_dates_of_9999_12_25:
  "upcoming_dates_of \<lparr>year = 9999, month = 12, day = 25\<rparr> [1..<8] = Inl OverflowError"
  unfolding range_1_8 by (simp add: window_defs funpow_unroll char_of_eq_iff)

text \<open>
  C1: for every date \<open>today\<close> up to 24.12.9999, \<open>get_upcoming_birthdays\<close> returns, in the
  order of the dictionary, the records whose birthday is set and whose stored string
  begins with the \<open>DD.MM\<close> of one of the days 1 to 7 after \<open>today\<close>; none of them begins
  with the \<open>DD.MM\<close> of \<open>today\<close> or of the day 8 after it. The book is unchanged.
\<close>

theorem get_upcoming_birthdays_window:
  assumes "valid_date today"
    and "year today < MAXYEAR \<or> month today < 12 \<or> day today \<le> 24"
  shows "\<exists>rs. AddressBook_get_upcoming_birthdays today book = (Inr rs, book) \<and>
      rs = filter (\<lambda>r. case birthday r of None \<Rightarrow> False
                        | Some b \<Rightarrow> \<exists>i \<in> {1..7}. \<exists>d. date_add_days today i = Inr d \<and>
                                     take 5 (value b) = strftime_dm d)
             (map snd (data book)) \<and>
      (\<forall>r \<in> set rs. \<forall>b. birthday r = Some b \<longrightarrow>
         take 5 (value b) \<noteq> strftime_dm today \<and>
         take 5 (value b) \<noteq> strftime_dm ((next_day ^^ 8) today))"
proof -
  let ?ds = "map (\<lambda>i. strftime_dm ((next_day ^^ i) today)) [1..<8]"
  let ?P = "\<lambda>r. case birthday r of None \<Rightarrow> False | Some b \<Rightarrow> take 5 (value b) \<in> set ?ds"
  let ?Q = "\<lambda>r. case birthday r of None \<Rightarrow> False
     | Some b \<Rightarrow> \<exists>i \<in> {1..7}. \<exists>d. date_add_days today i = Inr d \<and>
                  take 5 (value b) = strftime_dm d"
  let ?rs = "filter ?P (map snd (data book))"
  have set_ds: "set ?ds = (\<lambda>i. strftime_dm ((next_day ^^ i) today)) ` {1..7}"
    by (simp add: atLeastLessThanSuc_atLeastAtMost [symmetric] del: upt_rec_numeral)
  have add: "date_add_days today i = Inr ((next_day ^^ i) today)" if "i \<in> {1..7}" for i
    using window_in_range(1) [OF assms, of i] that by (simp add: date_add_days_def Let_def)
  have PQ: "?P r = ?Q r" for r
  proof (cases "birthday r")
    case None
    then show ?thesis by simp
  next
    case (Some b)
    have "(take 5 (value b) \<in> set ?ds) =
        (\<exists>i \<in> {1..7}. \<exists>d. date_add_days today i = Inr d \<and> take 5 (value b) = strftime_dm d)"
      unfolding set_ds using add by auto
    with Some show ?thesis by simp
  qed
  have run: "AddressBook_get_upcoming_birthdays today book = (Inr ?rs, book)"
    unfolding AddressBook_get_upcoming_birthdays_def upcoming_dates_of_window [OF assms]
      upcoming_loop_filter
    by (simp only: sum.case append_Nil)
  have spec: "?rs = filter ?Q (map snd (data book))"
    using PQ by (intro filter_cong) simp_all
  have excl: "take 5 (value b) \<noteq> strftime_dm today \<and>
      take 5 (value b) \<noteq> strftime_dm ((next_day ^^ 8) today)"
    if r: "r \<in> set ?rs" and b: "birthday r = Some b" for r b
  proof -
    from r b have "take 5 (value b) \<in> set ?ds" by simp
    then obtain i where i: "i \<in> {1..7}"
      and eq: "take 5 (value b) = strftime_dm ((next_day ^^ i) today)"
      unfolding set_ds by blast
    from window_excludes_today [OF assms(1) i] window_excludes_eighth [OF assms i] eq
    show ?thesis by simp
  qed
  from run spec excl show ?thesis by blast
qed

theorem get_upcoming_birthdays_window_witness:
  "valid_date \<lparr>year = 2024, month = 1, day = 1\<rparr> \<and>
   year \<lparr>year = 2024, month = 1, day = 1\<rparr> < MAXYEAR \<and>
   AddressBook_get_upcoming_birthdays \<lparr>year = 2024, month = 1, day = 1\<rparr> window_book =
     (Inr [\<lparr>name = \<lparr>value = ''Ann''\<rparr>, phones = [],
            birthday = Some \<lparr>value = ''05.01.1990''\<rparr>\<rparr>], window_book)"
proof -
  let ?today = "\<lparr>year = 2024, month = 1, day = 1\<rparr>"
  have h1: "valid_date ?today"
    by (simp add: valid_date_def days_in_month_def MAXYEAR_def)
  have y: "year ?today < MAXYEAR"
    by (simp add: MAXYEAR_def)
  then have h2: "year ?today < MAXYEAR \<or> month ?today < 12 \<or> day ?today \<le> 24"
    by (rule disjI1)
  have run: "fst (AddressBook_get_upcoming_birthdays ?today window_book) =
      Inr [\<lparr>name = \<lparr>value = ''Ann''\<rparr>, phones = [],
            birthday = Some \<lparr>value = ''05.01.1990''\<rparr>\<rparr>]"
    unfolding AddressBook_get_upcoming_birthdays_def upcoming_dates_of_2024_01_01
    by (simp add: window_book_def)
  from get_upcoming_birthdays_window [OF h1 h2, of window_book] obtain rs
    where "AddressBook_get_upcoming_birthdays ?today window_book = (Inr rs, window_book)"
    by blast
  with run h1 y show ?thesis by simp
qed

lemma valid_date_9999_12_25: "valid_date \<lparr>year = 9999, month = 12, day = 25\<rparr>"
  by (simp add: valid_date_def days_in_month_def MAXYEAR_def)

text \<open>
  C1, as stated for every date, fails on 25.12.9999: the seventh day after it lies beyond
  the last date of \<open>datetime\<close>, and the call raises OverflowError instead of returning
  records.
\<close>

theorem get_upcoming_birthdays_overflow:
  "valid_date \<lparr>year = 9999, month = 12, day = 25\<rparr> \<and>
   AddressBook_get_upcoming_birthdays \<lparr>year = 9999, month = 12, day = 25\<rparr> window_book =
     (Inl OverflowError, window_book)"
  by (simp only: valid_date_9999_12_25 AddressBook_get_upcoming_birthdays_def
      upcoming_dates_of_9999_12_25 sum.case simp_thms)

section \<open>Properties of the validators and of the handler\<close>

lemma re_repeat_digit_Some:
  "re_repeat_digit n s = Some rest \<longleftrightarrow>
     n \<le> length s \<and> list_all re_digit (take n s) \<and> rest = drop n s"
  by (induction n s rule: re_repeat_digit.induct) auto

lemma Phone_validate_phone_unfold:
  "Phone_validate_phone s \<longleftrightarrow>
     10 \<le> length s \<and> list_all re_digit (take 10 s) \<and>
     (drop 10 s = [] \<or> drop 10 s = [CHR 0x0A])"
proof (cases "re_repeat_digit 10 s")
  case None
  then have "\<not> (10 \<le> length s \<and> list_all re_digit (take 10 s))"
    using re_repeat_digit_Some [of 10 s "drop 10 s"] by simp
  with None show ?thesis by (auto simp add: Phone_validate_phone_def)
next
  case (Some rest)
  then have "10 \<le> length s \<and> list_all re_digit (take 10 s) \<and> rest = drop 10 s"
    by (simp only: re_repeat_digit_Some)
  with Some show ?thesis by (simp add: Phone_validate_phone_def re_dollar_def)
qed

lemma Phone_validate_phone_iff:
  "Phone_validate_phone s \<longleftrightarrow>
     (\<exists>d. length d = 10 \<and> list_all re_digit d \<and> (s = d \<or> s = d @ [CHR 0x0A]))"
proof
  assume "Phone_validate_phone s"
  then have l: "10 \<le> length s" and d: "list_all re_digit (take 10 s)"
    and r: "drop 10 s = [] \<or> drop 10 s = [CHR 0x0A]"
    by (simp_all only: Phone_validate_phone_unfold)
  have "s = take 10 s \<or> s = take 10 s @ [CHR 0x0A]"
  proof (rule disjE [OF r])
    assume "drop 10 s = []"
    then show ?thesis by (metis append_take_drop_id append_Nil2)
  next
    assume "drop 10 s = [CHR 0x0A]"
    then show ?thesis by (metis append_take_drop_id)
  qed
  moreover from l have "length (take 10 s) = 10" by simp
  ultimately show "\<exists>d. length d = 10 \<and> list_all re_digit d \<and> (s = d \<or> s = d @ [CHR 0x0A])"
    using d by blast
next
  assume "\<exists>d. length d = 10 \<and> list_all re_digit d \<and> (s = d \<or> s = d @ [CHR 0x0A])"
  then obtain d where d: "length d = 10" "list_all re_digit d" "s = d \<or> s = d @ [CHR 0x0A]"
    by blast
  from d(3) show "Phone_validate_phone s"
  proof
    assume "s = d"
    with d(1,2) show ?thesis by (simp add: Phone_validate_phone_unfold)
  next
    assume "s = d @ [CHR 0x0A]"
    with d(1,2) show ?thesis by (simp add: Phone_validate_phone_unfold)
  qed
qed

lemma Phone_init_str: "Phone_init s = Inr p \<Longrightarrow> Field_str p = s"
  by (auto simp: Phone_init_def Field_str_def split: if_splits)

text \<open>
  C2: \<open>Phone\<close> accepts ten digits followed by a line feed, a string of eleven characters,
  and stores it as it is.
\<close>

theorem Phone_init_trailing_newline:
  "Phone_init (''1234567890'' @ [CHR 0x0A]) = Inr \<lparr>value = ''1234567890'' @ [CHR 0x0A]\<rparr> \<and>
   length (''1234567890'' @ [CHR 0x0A]) = 11"
  by (simp add: Phone_init_def Phone_validate_phone_def re_dollar_def re_digit_def
      eval_nat_numeral)

text \<open>
  C3: \<open>Birthday\<close> rejects \<open>31.02.2024\<close> and \<open>00.01.2000\<close>, and accepts \<open>1.1.2000\<close>, whose day
  and month have one digit each.
\<close>

theorem Birthday_init_unpadded:
  "Birthday_init ''1.1.2000'' = Inr \<lparr>value = ''1.1.2000''\<rparr> \<and>
   Birthday_init ''31.02.2024'' = Inl ValueError \<and>
   Birthday_init ''00.01.2000'' = Inl ValueError"
  by (simp add: Birthday_init_def strptime_dmY_def regex_defs date_defs)

text \<open>What does hold: every calendar date written in the fixed-width pattern
  is accepted. And what the one-digit form leads to: a birthday stored as \<open>1.1.2000\<close> is
  never among the upcoming ones, since its first five characters are no \<open>DD.MM\<close>.\<close>

lemma digit_char:
  assumes "k < 10"
  shows "re_digit (char_of (48 + k))" and "digit_val (char_of (48 + k)) = k"
proof -
  from assms have "k \<in> {0, 1, 2, 3, 4, 5, 6, 7, 8, 9}" by auto
  then show "re_digit (char_of (48 + k))"
    by (elim insertE emptyE) (simp_all add: re_digit_def char_of_eq_iff)
  from assms show "digit_val (char_of (48 + k)) = k"
    by (simp add: digit_val_def)
qed

lemma re_group_d_pad2:
  assumes "1 \<le> n" and "n \<le> 31"
  shows "\<exists>alts. re_group_d (pad2 n @ r) = (n, r) # alts"
proof -
  from assms have "n \<in> {1, 2, 3, 4, 5, 6, 7, 8, 9, 10, 11, 12, 13, 14, 15, 16, 17, 18, 19, 20,
      21, 22, 23, 24, 25, 26, 27, 28, 29, 30, 31}" by simp arith
  then show ?thesis
    by (elim insertE emptyE)
       (simp_all add: re_group_d_def pad2_def re_digit_def digit_val_def char_of_eq_iff)
qed

lemma re_group_m_pad2:
  assumes "1 \<le> n" and "n \<le> 12"
  shows "\<exists>alts. re_group_m (pad2 n @ r) = (n, r) # alts"
proof -
  from assms have "n \<in> {1, 2, 3, 4, 5, 6, 7, 8, 9, 10, 11, 12}" by simp arith
  then show ?thesis
    by (elim insertE emptyE)
       (simp_all add: re_group_m_def pad2_def re_digit_def digit_val_def char_of_eq_iff)
qed

lemma decimal_digits:
  assumes "n < 10000"
  shows "1000 * (n div 1000 mod 10) + 100 * (n div 100 mod 10) + 10 * (n div 10 mod 10) +
         n mod 10 = (n::nat)"
proof -
  have a: "n mod 10 + 10 * (n div 10) = n" by simp
  have "n div 10 div 10 = n div 100" "n div 100 div 10 = n div 1000"
    by (simp_all add: div_mult2_eq)
  then have b: "n div 10 mod 10 + 10 * (n div 100) = n div 10"
    and c: "n div 100 mod 10 + 10 * (n div 1000) = n div 100"
    by (metis mod_mult_div_eq)+
  from assms have "n div 1000 < 10" by simp
  then have d: "n div 1000 mod 10 = n div 1000" by simp
  from a b c d show ?thesis by linarith
qed

lemma re_group_Y_pad4:
  assumes "n < 10000"
  shows "re_group_Y (pad4 n @ r) = [(n, r)]"
proof -
  have lt: "n div 1000 mod 10 < 10" "n div 100 mod 10 < 10" "n div 10 mod 10 < 10" "n mod 10 < 10"
    by simp_all
  from assms have "n div 1000 < 10" by simp
  then have "n div 1000 mod 10 = n div 1000" by simp
  with lt decimal_digits [OF assms] show ?thesis
    unfolding re_group_Y_def pad4_def by (simp add: digit_char)
qed

lemma re_dot_dot: "re_dot (CHR ''.'' # r) = [r]"
  by (simp add: re_dot_def)

lemma re_dmY_fixed_width:
  assumes "valid_date d"
  shows "\<exists>alts. re_dmY (fixed_width_dmY d) = (day d, month d, year d, []) # alts"
proof -
  from assms have v: "1 \<le> day d" "day d \<le> 31" "1 \<le> month d" "month d \<le> 12"
    "year d < 10000"
    using days_in_month_bounds(2) [of "year d" "month d"]
    by (simp_all add: valid_date_def MAXYEAR_def)
  let ?r1 = "CHR ''.'' # pad2 (month d) @ CHR ''.'' # pad4 (year d)"
  let ?r3 = "CHR ''.'' # pad4 (year d)"
  from re_group_d_pad2 [OF v(1,2), of ?r1] obtain alts1
    where g1: "re_group_d (fixed_width_dmY d) = (day d, ?r1) # alts1"
    by (auto simp: fixed_width_dmY_def)
  from re_group_m_pad2 [OF v(3,4), of ?r3] obtain alts2
    where g2: "re_group_m (pad2 (month d) @ ?r3) = (month d, ?r3) # alts2"
    by auto
  from re_group_Y_pad4 [OF v(5), of "[]"]
  have g3: "re_group_Y (pad4 (year d)) = [(year d, [])]" by simp
  show ?thesis
    unfolding re_dmY_def g1 by (simp add: re_dot_dot g2 g3)
qed

lemma Birthday_init_fixed_width:
  assumes "valid_date d"
  shows "Birthday_init (fixed_width_dmY d) = Inr \<lparr>value = fixed_width_dmY d\<rparr>"
proof -
  from re_dmY_fixed_width [OF assms] obtain alts
    where "re_dmY (fixed_width_dmY d) = (day d, month d, year d, []) # alts" by blast
  moreover from assms have "valid_date \<lparr>year = year d, month = month d, day = day d\<rparr>"
    by (simp add: valid_date_def)
  ultimately show ?thesis
    by (simp add: Birthday_init_def strptime_dmY_def datetime_date_def Let_def)
qed

lemma strftime_dm_dot: "strftime_dm d ! 2 = CHR ''.''"
  by (simp add: strftime_dm_def pad2_def)

lemma upcoming_dates_of_rendered:
  "upcoming_dates_of today is = Inr ds \<Longrightarrow> \<forall>s \<in> set ds. \<exists>d. s = strftime_dm d"
  by (induction "is" arbitrary: ds) (auto split: sum.splits)

lemma unpadded_birthday_never_upcoming:
  assumes "fst (AddressBook_get_upcoming_birthdays today book) = Inr rs" and "r \<in> set rs"
  shows "birthday r \<noteq> Some \<lparr>value = ''1.1.2000''\<rparr>"
proof
  assume b: "birthday r = Some \<lparr>value = ''1.1.2000''\<rparr>"
  from assms(1) obtain ds where ds: "upcoming_dates_of today [1..<8] = Inr ds"
    and rs: "rs = upcoming_loop ds (map snd (data book)) []"
    by (auto simp: AddressBook_get_upcoming_birthdays_def split: sum.splits)
  from assms(2) b have "take 5 ''1.1.2000'' \<in> set ds"
    unfolding rs upcoming_loop_filter by auto
  with upcoming_dates_of_rendered [OF ds] obtain d where "''1.1.2'' = strftime_dm d"
    by auto
  then have "''1.1.2'' ! 2 = strftime_dm d ! 2" by simp
  then show False by (simp add: strftime_dm_dot)
qed

lemma strptime_dmY_error: "strptime_dmY s = Inl e \<Longrightarrow> e = ValueError"
  by (auto simp: strptime_dmY_def datetime_date_def Let_def split: list.splits if_splits)

lemma Birthday_init_error: "Birthday_init s = Inl e \<Longrightarrow> e = ValueError"
  by (auto simp: Birthday_init_def split: sum.splits pyerror.splits dest: strptime_dmY_error)

lemma call_add_birthday_invalid:
  assumes c: "dict_contains n (data book)" and b: "Birthday_init b = Inl ValueError"
  shows "AddressBook_call n (Record_add_birthday b) book = (Inl ValueError, book)"
proof -
  from c obtain r where r: "map_of (data book) n = Some r"
    by (auto simp: dict_contains_def weak_map_of_SomeI dest!: weak_map_of_SomeI)
  then have "AList.update n r (data book) = data book" by (rule update_triv)
  with r b show ?thesis
    by (simp add: AddressBook_call_def dict_getitem_def Record_add_birthday_def)
qed

lemma add_birthday_func_error:
  "fst (add_birthday_func args book) = Inl e \<Longrightarrow> e = ValueError \<or> e = KeyError"
  by (auto simp: add_birthday_func_def AddressBook_call_def dict_getitem_def
      Record_add_birthday_def
      split: list.splits if_splits sum.splits prod.splits option.splits
      dest: Birthday_init_error)

lemma input_error_recovers:
  assumes "\<And>e. fst (f args book) = Inl e \<Longrightarrow> e = ValueError \<or> e = KeyError \<or> e = IndexError"
  shows "\<exists>msg. fst (input_error f args book) = Inr msg"
proof (cases "f args book")
  case (Pair res b)
  show ?thesis
  proof (cases res)
    case (Inl e)
    with Pair assms [of e] show ?thesis
      by (auto simp: input_error_def)
  next
    case (Inr r)
    with Pair show ?thesis by (simp add: input_error_def)
  qed
qed

lemma add_birthday_returns_message: "\<exists>msg. fst (add_birthday args book) = Inr msg"
  unfolding add_birthday_def
  by (rule input_error_recovers) (auto dest: add_birthday_func_error)

text \<open>
  C5: the handler \<open>add_birthday\<close> always returns a message, never an exception; when the
  name is in the book and the Birthday constructor raises ValueError, the message is
  the one the decorator gives for ValueError and the book is unchanged.
\<close>

theorem add_birthday_recovers_ValueError:
  "(\<exists>msg. fst (add_birthday args book) = Inr msg) \<and>
   (dict_contains n (data book) \<and> Birthday_init b = Inl ValueError \<longrightarrow>
      add_birthday [n, b] book = (Inr ''Give me name and phone please.'', book))"
  by (simp add: add_birthday_returns_message)
     (simp add: add_birthday_def input_error_def add_birthday_func_def call_add_birthday_invalid)

theorem add_birthday_recovers_ValueError_witness:
  "dict_contains ''Ann'' (data example_book) \<and> Birthday_init ''1990-01-05'' = Inl ValueError \<and>
   add_birthday [''Ann'', ''1990-01-05''] example_book =
     (Inr ''Give me name and phone please.'', example_book)"
proof -
  have h: "dict_contains ''Ann'' (data example_book) \<and> Birthday_init ''1990-01-05'' = Inl ValueError"
    by (simp add: dict_contains_def example_book_def Birthday_init_def strptime_dmY_def regex_defs)
  with add_birthday_recovers_ValueError [of "[]" example_book "''Ann''" "''1990-01-05''"] show ?thesis by blast
qed

lemma Birthday_init_31_02: "Birthday_init ''31.02.2024'' = Inl ValueError"
  by (simp add: Birthday_init_def strptime_dmY_def regex_defs date_defs)

text \<open>
  C5, as stated, fails: no argument list and no book make \<open>add_birthday\<close> pass an
  exception on to the command loop, and the impossible date \<open>31.02.2024\<close> is answered
  with a message.
\<close>

theorem add_birthday_propagates_nothing:
  "add_birthday [''Bob'', ''31.02.2024''] example_book =
     (Inr ''Give me name and phone please.'', example_book) \<and>
   \<not> (\<exists>args book e. fst (add_birthday args book) = Inl e)"
proof
  have "dict_contains ''Bob'' (data example_book)"
    by (simp add: dict_contains_def example_book_def)
  then show "add_birthday [''Bob'', ''31.02.2024''] example_book =
     (Inr ''Give me name and phone please.'', example_book)"
    by (simp add: add_birthday_def input_error_def add_birthday_func_def
        call_add_birthday_invalid Birthday_init_31_02)
next
  show "\<not> (\<exists>args book e. fst (add_birthday args book) = Inl e)"
  proof
    assume "\<exists>args book e. fst (add_birthday args book) = Inl e"
    then obtain args book e where "fst (add_birthday args book) = Inl e" by blast
    with add_birthday_returns_message [of args book] show False by auto
  qed
qed

end
